theory Spec2Isabelle
  imports Main "HOL-Library.Word"
begin

section \<open>The LRU cache of \<^verbatim>\<open>Cache.h\<close>\<close>

text \<open>
  \<^verbatim>\<open>Cache<key_type, value_type>\<close> keeps a \<^verbatim>\<open>std::list<key_type>\<close> of keys, most recently
  used first, and a \<^verbatim>\<open>std::map\<close> from keys to a value and an iterator into that list.
  Both C++ integer types of the class are 32 bits wide: \<^verbatim>\<open>int\<close> (the constructor's
  argument and the four counters, read with \<open>sint\<close>) and \<^verbatim>\<open>unsigned\<close> (\<^verbatim>\<open>maxsize\<close>,
  read with \<open>unat\<close>). Arithmetic on words wraps around; for \<^verbatim>\<open>int\<close>, where C++ leaves
  overflow undefined, this is what the two's complement machine does.
\<close>

type_synonym c_int = "32 word"
type_synonym c_unsigned = "32 word"

subsection \<open>The list and its iterators\<close>

text \<open>
  A \<^verbatim>\<open>std::list\<close> iterator names a node, and stays valid while the node is moved inside
  the list. A node is modelled by a handle (a number, as an address would be) paired
  with the key it holds; the list is the sequence of its nodes, front first.
\<close>

type_synonym list_iter = nat

type_synonym 'k lru = "(list_iter \<times> 'k) list"

text \<open>The allocation of a node: a handle that no node of the list has.\<close>

definition new_node :: "'k lru \<Rightarrow> list_iter" where
  "new_node xs = Suc (fold max (map fst xs) 0)"

text \<open>\<^verbatim>\<open>lru_list.push_front(key)\<close>\<close>

definition push_front :: "'k \<Rightarrow> 'k lru \<Rightarrow> 'k lru" where
  "push_front key xs = (new_node xs, key) # xs"

text \<open>
  \<^verbatim>\<open>lru_list.begin()\<close>, the iterator of the first node. It is only taken right after
  \<^verbatim>\<open>push_front\<close>; on an empty list (where C++ gives \<^verbatim>\<open>end()\<close>) the model gives a handle
  of no node.
\<close>

definition begin_iter :: "'k lru \<Rightarrow> list_iter" where
  "begin_iter xs = (case xs of [] \<Rightarrow> new_node xs | n # _ \<Rightarrow> fst n)"

text \<open>
  \<^verbatim>\<open>lru_list.splice(lru_list.begin(), lru_list, li)\<close>: the node that \<^verbatim>\<open>li\<close> names is
  unlinked and linked again in front. With an iterator of no node of the list (undefined
  behaviour in C++) the model leaves the list as it is.
\<close>

definition splice_front :: "list_iter \<Rightarrow> 'k lru \<Rightarrow> 'k lru" where
  "splice_front li xs =
     (case List.find (\<lambda>n. fst n = li) xs of
        None \<Rightarrow> xs
      | Some n \<Rightarrow> n # filter (\<lambda>m. fst m \<noteq> li) xs)"

text \<open>
  \<^verbatim>\<open>lru_list.back()\<close> and \<^verbatim>\<open>lru_list.pop_back()\<close>. The source calls them on a list that
  has just been pushed to, so the empty list (undefined behaviour in C++) does not
  arise; \<open>back_key\<close> returns \<open>None\<close> there.
\<close>

definition back_key :: "'k lru \<Rightarrow> 'k option" where
  "back_key xs = (case xs of [] \<Rightarrow> None | _ # _ \<Rightarrow> Some (snd (last xs)))"

definition pop_back :: "'k lru \<Rightarrow> 'k lru" where
  "pop_back xs = butlast xs"

subsection \<open>The state of a cache\<close>

record 'v cached_value =
  val :: 'v
  cache_i :: list_iter

record cache_statistics =
  found_hits :: c_int
  found :: c_int
  removed :: c_int
  miss :: c_int

record ('k, 'v) cache =
  maxsize :: c_unsigned
  lru_list :: "'k lru"
  table :: "'k \<rightharpoonup> 'v cached_value"
  stats :: cache_statistics

text \<open>
  \<^verbatim>\<open>table.insert(make_pair(key, cv))\<close>: \<^verbatim>\<open>std::map::insert\<close> adds the pair only when the
  key has no entry yet.
\<close>

definition map_insert :: "'k \<Rightarrow> 'a \<Rightarrow> ('k \<rightharpoonup> 'a) \<Rightarrow> ('k \<rightharpoonup> 'a)" where
  "map_insert key cv t = (case t key of None \<Rightarrow> t(key \<mapsto> cv) | Some _ \<Rightarrow> t)"

text \<open>
  \<^verbatim>\<open>*valptr = value\<close>, where \<^verbatim>\<open>valptr\<close> is the pointer \<^verbatim>\<open>&(ti->second.value)\<close> that
  \<^verbatim>\<open>find(key)\<close> returned: the write goes to the \<^verbatim>\<open>value\<close> field of the entry of \<^verbatim>\<open>key\<close>.
\<close>

definition assign_value :: "'k \<Rightarrow> 'v \<Rightarrow> ('k \<rightharpoonup> 'v cached_value) \<Rightarrow> ('k \<rightharpoonup> 'v cached_value)" where
  "assign_value key v t = (case t key of None \<Rightarrow> t | Some cv \<Rightarrow> t(key \<mapsto> cv\<lparr>val := v\<rparr>))"

subsection \<open>Constructor, find and insert\<close>

text \<open>
  \<^verbatim>\<open>Cache(int size) : maxsize(size) { }\<close>: the \<^verbatim>\<open>int\<close> is converted to \<^verbatim>\<open>unsigned\<close>, which
  keeps its 32 bits; the list and the map start empty and \<^verbatim>\<open>cache_statistics()\<close> sets
  the four counters to 0. The constructor has no check and no \<^verbatim>\<open>throw\<close>.
\<close>

definition Cache :: "c_int \<Rightarrow> ('k, 'v) cache" where
  "Cache sz = \<lparr>maxsize = sz, lru_list = [], table = Map.empty,
     stats = \<lparr>found_hits = 0, found = 0, removed = 0, miss = 0\<rparr>\<rparr>"

text \<open>
  \<^verbatim>\<open>find\<close> returns a pointer to the stored value, or 0. The result \<open>Some v\<close> is a pointer
  to the \<^verbatim>\<open>value\<close> field of the entry of \<open>key\<close>, which holds \<open>v\<close>; \<open>None\<close> is the null
  pointer.
\<close>

definition find_cache :: "'k \<Rightarrow> ('k, 'v) cache \<Rightarrow> 'v option \<times> ('k, 'v) cache" where
  "find_cache key c =
     (let ti = table c key;
          c1 = c\<lparr>stats := (stats c)\<lparr>found_hits := found_hits (stats c) + 1\<rparr>\<rparr>
      in case ti of
           None \<Rightarrow> (None, c1)
         | Some cv \<Rightarrow>
             (let c2 = c1\<lparr>stats := (stats c1)\<lparr>found := found (stats c1) + 1\<rparr>\<rparr>;
                  li = cache_i cv;
                  c3 = c2\<lparr>lru_list := splice_front li (lru_list c2)\<rparr>
              in (Some (val cv), c3)))"

definition insert_cache :: "'k \<Rightarrow> 'v \<Rightarrow> ('k, 'v) cache \<Rightarrow> ('k, 'v) cache" where
  "insert_cache key v c =
     (case find_cache key c of
        (Some _, c1) \<Rightarrow> c1\<lparr>table := assign_value key v (table c1)\<rparr>
      | (None, c1) \<Rightarrow>
          (let c2 = c1\<lparr>lru_list := push_front key (lru_list c1)\<rparr>;
               cv = \<lparr>val = v, cache_i = begin_iter (lru_list c2)\<rparr>;
               c3 = c2\<lparr>table := map_insert key cv (table c2)\<rparr>
           in if unat (maxsize c3) < length (lru_list c3) then
                (case back_key (lru_list c3) of
                   None \<Rightarrow> c3
                 | Some lru_key \<Rightarrow>
                     (let c4 = c3\<lparr>table := (table c3)(lru_key := None)\<rparr>;
                          c5 = c4\<lparr>lru_list := pop_back (lru_list c4)\<rparr>
                      in c5\<lparr>stats := (stats c5)\<lparr>removed := removed (stats c5) + 1\<rparr>\<rparr>))
              else c3))"

subsection \<open>Sequences of calls\<close>

datatype ('k, 'v) operation = Find 'k | Insert 'k 'v

fun key_of :: "('k, 'v) operation \<Rightarrow> 'k" where
  "key_of (Find k) = k"
| "key_of (Insert k v) = k"

fun exec :: "('k, 'v) operation \<Rightarrow> ('k, 'v) cache \<Rightarrow> ('k, 'v) cache" where
  "exec (Find k) c = snd (find_cache k c)"
| "exec (Insert k v) c = insert_cache k v c"

fun run :: "('k, 'v) operation list \<Rightarrow> ('k, 'v) cache \<Rightarrow> ('k, 'v) cache" where
  "run [] c = c"
| "run (op # ops) c = run ops (exec op c)"

text \<open>The keys of the list, front first.\<close>

definition keys :: "('k, 'v) cache \<Rightarrow> 'k list" where
  "keys c = map snd (lru_list c)"


text \<open>
  The time a key was last touched by a sequence of calls: the position, counted from 1,
  of the last \<^verbatim>\<open>find\<close> or \<^verbatim>\<open>insert\<close> of the key, and 0 for a key no call names. A
  \<^verbatim>\<open>find\<close> that misses counts as well; it can be the last call of a key only while the
  key is not in the cache, since the key comes back by an \<^verbatim>\<open>insert\<close>, which is later.
\<close>

fun last_touch :: "('k, 'v) operation list \<Rightarrow> 'k \<Rightarrow> nat" where
  "last_touch [] k = 0"
| "last_touch (op # ops) k =
     (if last_touch ops k \<noteq> 0 then Suc (last_touch ops k)
      else if key_of op = k then 1 else 0)"

text \<open>
  Counting the calls of a sequence that starts in state \<open>c\<close>: the \<^verbatim>\<open>find\<close> calls and
  those of them that hit, the \<^verbatim>\<open>insert\<close> calls, those of a key that is in the map
  already, and those of a new key into a list that is as long as \<^verbatim>\<open>maxsize\<close> or longer.
\<close>

fun finds :: "('k, 'v) operation list \<Rightarrow> nat" where
  "finds [] = 0"
| "finds (Find k # ops) = Suc (finds ops)"
| "finds (Insert k v # ops) = finds ops"

fun inserts :: "('k, 'v) operation list \<Rightarrow> nat" where
  "inserts [] = 0"
| "inserts (Find k # ops) = inserts ops"
| "inserts (Insert k v # ops) = Suc (inserts ops)"

fun hits :: "('k, 'v) operation list \<Rightarrow> ('k, 'v) cache \<Rightarrow> nat" where
  "hits [] c = 0"
| "hits (Find k # ops) c =
     (if fst (find_cache k c) = None then 0 else 1) + hits ops (exec (Find k) c)"
| "hits (Insert k v # ops) c = hits ops (exec (Insert k v) c)"

fun updates :: "('k, 'v) operation list \<Rightarrow> ('k, 'v) cache \<Rightarrow> nat" where
  "updates [] c = 0"
| "updates (Find k # ops) c = updates ops (exec (Find k) c)"
| "updates (Insert k v # ops) c =
     (if table c k = None then 0 else 1) + updates ops (exec (Insert k v) c)"

definition overflowing :: "'k \<Rightarrow> ('k, 'v) cache \<Rightarrow> bool" where
  "overflowing k c \<longleftrightarrow> table c k = None \<and> unat (maxsize c) \<le> length (lru_list c)"

fun overflows :: "('k, 'v) operation list \<Rightarrow> ('k, 'v) cache \<Rightarrow> nat" where
  "overflows [] c = 0"
| "overflows (Find k # ops) c = overflows ops (exec (Find k) c)"
| "overflows (Insert k v # ops) c =
     (if overflowing k c then 1 else 0) + overflows ops (exec (Insert k v) c)"

subsection \<open>Construction as a call that could fail\<close>

text \<open>
  A C++ constructor can reject its argument only by throwing. The result of a
  construction is \<open>Inr\<close> of the object, or \<open>Inl\<close> of what was thrown; the body of
  \<^verbatim>\<open>Cache(int size)\<close> is empty, so nothing is thrown.
\<close>

datatype construction_error = Rejected

definition construct :: "c_int \<Rightarrow> construction_error + ('k, 'v) cache" where
  "construct sz = Inr (Cache sz)"

subsection \<open>The output stream\<close>

text \<open>
  \<^verbatim>\<open>statistics\<close> writes to a \<^verbatim>\<open>std::ostream&\<close> of the caller. What the stream does with
  \<^verbatim>\<open>out << "text"\<close>, \<^verbatim>\<open>out << int\<close> and \<^verbatim>\<open>out << std::endl\<close> depends on its state, and the model
  keeps the parts of the state these three read or change:
  \<^item> \<open>buffer\<close>, the characters written so far, and \<open>room\<close>, the number of characters
    the stream buffer still accepts (\<open>None\<close> when it accepts any number);
  \<^item> \<open>rdstate\<close>, the bits \<^verbatim>\<open>badbit\<close>, \<^verbatim>\<open>failbit\<close> and \<^verbatim>\<open>eofbit\<close>, and \<open>exceptions\<close>, the
    mask of the bits that make \<^verbatim>\<open>setstate\<close> throw \<^verbatim>\<open>ios_base::failure\<close>;
  \<^item> \<open>flags\<close>: the base of integers (\<^verbatim>\<open>dec\<close>, \<^verbatim>\<open>oct\<close>, \<^verbatim>\<open>hex\<close>), the adjustment
    (\<^verbatim>\<open>left\<close>, \<^verbatim>\<open>right\<close>, \<^verbatim>\<open>internal\<close>), \<^verbatim>\<open>showbase\<close>, \<^verbatim>\<open>showpos\<close> and \<^verbatim>\<open>uppercase\<close>;
  \<^item> \<open>width\<close> and \<open>fill\<close>, the field width of the next formatted output and the
    character that pads it.
  The locale of the stream is the classic one (digits are not grouped), which every
  stream has unless the caller imbues another.
\<close>

record iostate =
  badbit :: bool
  failbit :: bool
  eofbit :: bool

text \<open>
  \<open>Dec\<close> stands for \<^verbatim>\<open>dec\<close> and for every setting of the base field other than \<^verbatim>\<open>oct\<close>
  alone or \<^verbatim>\<open>hex\<close> alone, \<open>Adjust_right\<close> for \<^verbatim>\<open>right\<close> and for an adjust field with no bit
  set: the library treats them alike.
\<close>

datatype basefield = Dec | Oct | Hex

datatype adjustfield = Adjust_right | Adjust_left | Adjust_internal

record fmtflags =
  base :: basefield
  adjust :: adjustfield
  showbase :: bool
  showpos :: bool
  uppercase :: bool

record ostream =
  buffer :: string
  room :: "nat option"
  rdstate :: iostate
  exceptions :: iostate
  flags :: fmtflags
  width :: nat
  fill :: char

text \<open>
  A call on a stream returns, or throws \<^verbatim>\<open>ios_base::failure\<close>; either way it leaves the
  stream of the caller in some state.
\<close>

datatype 'a outcome = Returns 'a | Throws 'a

fun stream_of :: "'a outcome \<Rightarrow> 'a" where
  "stream_of (Returns os) = os"
| "stream_of (Throws os) = os"

text \<open>The state of a stream after \<^verbatim>\<open>basic_ios::init\<close>, over a buffer that accepts everything.\<close>

definition fresh_ostream :: ostream where
  "fresh_ostream =
     \<lparr>buffer = [], room = None,
      rdstate = \<lparr>badbit = False, failbit = False, eofbit = False\<rparr>,
      exceptions = \<lparr>badbit = False, failbit = False, eofbit = False\<rparr>,
      flags = \<lparr>base = Dec, adjust = Adjust_right, showbase = False, showpos = False,
               uppercase = False\<rparr>,
      width = 0, fill = CHR '' ''\<rparr>"

text \<open>\<^verbatim>\<open>good()\<close>: no bit of the state is set.\<close>

definition good :: "ostream \<Rightarrow> bool" where
  "good os \<longleftrightarrow> \<not> badbit (rdstate os) \<and> \<not> failbit (rdstate os) \<and> \<not> eofbit (rdstate os)"

text \<open>
  \<^verbatim>\<open>setstate(badbit)\<close> and \<^verbatim>\<open>setstate(failbit)\<close>: the bit is set, and the call throws when a
  bit that is now set is in the mask \<^verbatim>\<open>exceptions()\<close>.
\<close>

definition masked :: "ostream \<Rightarrow> bool" where
  "masked os \<longleftrightarrow>
     badbit (rdstate os) \<and> badbit (exceptions os) \<or>
     failbit (rdstate os) \<and> failbit (exceptions os) \<or>
     eofbit (rdstate os) \<and> eofbit (exceptions os)"

definition setstate_badbit :: "ostream \<Rightarrow> ostream outcome" where
  "setstate_badbit os =
     (let os1 = os\<lparr>rdstate := (rdstate os)\<lparr>badbit := True\<rparr>\<rparr>
      in if masked os1 then Throws os1 else Returns os1)"

definition setstate_failbit :: "ostream \<Rightarrow> ostream outcome" where
  "setstate_failbit os =
     (let os1 = os\<lparr>rdstate := (rdstate os)\<lparr>failbit := True\<rparr>\<rparr>
      in if masked os1 then Throws os1 else Returns os1)"

text \<open>
  Every output function first constructs a \<^verbatim>\<open>sentry\<close>, and writes only when the stream is
  \<^verbatim>\<open>good()\<close>. On a stream that is not, the sentry of libstdc++ calls \<^verbatim>\<open>setstate(failbit)\<close>
  when \<^verbatim>\<open>badbit\<close> is set and does nothing otherwise; nothing is written in either case.
\<close>

definition sentry_not_ok :: "ostream \<Rightarrow> ostream outcome" where
  "sentry_not_ok os = (if badbit (rdstate os) then setstate_failbit os else Returns os)"

text \<open>
  \<^verbatim>\<open>rdbuf()->sputn(s, n)\<close>: the stream buffer takes as many of the characters as it has room
  for and returns their number. When it has taken fewer than \<open>n\<close>, the output function
  calls \<^verbatim>\<open>setstate(badbit)\<close>.
\<close>

definition sputn :: "string \<Rightarrow> ostream \<Rightarrow> nat \<times> ostream" where
  "sputn s os =
     (case room os of
        None \<Rightarrow> (length s, os\<lparr>buffer := buffer os @ s\<rparr>)
      | Some n \<Rightarrow>
          (min n (length s), os\<lparr>buffer := buffer os @ take n s, room := Some (n - length s)\<rparr>))"

definition write_chars :: "string \<Rightarrow> ostream \<Rightarrow> ostream outcome" where
  "write_chars s os =
     (case sputn s os of
        (put, os1) \<Rightarrow> if put = length s then Returns os1 else setstate_badbit os1)"

text \<open>
  \<^verbatim>\<open>out << "text"\<close>: the text is padded with \<^verbatim>\<open>fill()\<close> to \<^verbatim>\<open>width()\<close>, after the text when
  the adjustment is \<^verbatim>\<open>left\<close> and before it otherwise, and written; then \<^verbatim>\<open>width(0)\<close>.
\<close>

definition pad_text :: "ostream \<Rightarrow> string \<Rightarrow> string" where
  "pad_text os s =
     (let fills = replicate (width os - length s) (fill os)
      in if adjust (flags os) = Adjust_left then s @ fills else fills @ s)"

definition put_string :: "string \<Rightarrow> ostream \<Rightarrow> ostream outcome" where
  "put_string s os =
     (if good os then
        (case write_chars (pad_text os s) os of
           Returns os1 \<Rightarrow> Returns (os1\<lparr>width := 0\<rparr>)
         | Throws os1 \<Rightarrow> Throws os1)
      else sentry_not_ok os)"

text \<open>
  \<^verbatim>\<open>out << int\<close>. With the base \<^verbatim>\<open>oct\<close> or \<^verbatim>\<open>hex\<close> the \<^verbatim>\<open>int\<close> is converted to \<^verbatim>\<open>unsigned int\<close>
  and written in that base, with \<^verbatim>\<open>printf\<close>'s \<^verbatim>\<open>%o\<close>, \<^verbatim>\<open>%x\<close> or \<^verbatim>\<open>%X\<close>; \<^verbatim>\<open>showbase\<close> puts \<^verbatim>\<open>0\<close>,
  \<^verbatim>\<open>0x\<close> or \<^verbatim>\<open>0X\<close> in front of a number other than 0. With any other base it is written
  in decimal with \<^verbatim>\<open>%d\<close>, after \<^verbatim>\<open>-\<close> when it is negative and, under \<^verbatim>\<open>showpos\<close>, after \<^verbatim>\<open>+\<close>
  when it is not. The text is padded to \<^verbatim>\<open>width()\<close>: after the number when the
  adjustment is \<^verbatim>\<open>left\<close>, between the sign or the \<^verbatim>\<open>0x\<close> and the digits when it is
  \<^verbatim>\<open>internal\<close>, before the number otherwise; and \<^verbatim>\<open>width(0)\<close> is called before the text
  is written.
\<close>

fun radix :: "basefield \<Rightarrow> nat" where
  "radix Dec = 10"
| "radix Oct = 8"
| "radix Hex = 16"

text \<open>The character of a digit; every digit written is below the base, so below 16.\<close>

definition digit_char :: "bool \<Rightarrow> nat \<Rightarrow> char" where
  "digit_char upper d =
     (if upper then ''0123456789ABCDEF'' else ''0123456789abcdef'') ! (d mod 16)"

function digits :: "basefield \<Rightarrow> bool \<Rightarrow> nat \<Rightarrow> string" where
  "digits b upper n =
     (if n < radix b then [digit_char upper n]
      else digits b upper (n div radix b) @ [digit_char upper (n mod radix b)])"
  by pat_completeness auto
termination
proof (relation "measure (\<lambda>(b, upper, n). n)")
  fix b :: basefield and upper :: bool and n :: nat
  assume "\<not> n < radix b"
  moreover have "2 \<le> radix b" by (cases b) simp_all
  ultimately have "n div radix b < n" by (intro div_less_dividend) simp_all
  then show "((b, upper, n div radix b), (b, upper, n)) \<in> measure (\<lambda>(b, upper, n). n)"
    by simp
qed simp

declare digits.simps [simp del]

definition num_parts :: "fmtflags \<Rightarrow> c_int \<Rightarrow> string \<times> string" where
  "num_parts f w =
     (case base f of
        Dec \<Rightarrow>
          if sint w < 0 then (''-'', digits Dec False (nat (- sint w)))
          else (if showpos f then ''+'' else [], digits Dec False (nat (sint w)))
      | Oct \<Rightarrow>
          ([], (if showbase f \<and> w \<noteq> 0 then ''0'' else []) @ digits Oct False (unat w))
      | Hex \<Rightarrow>
          (if showbase f \<and> w \<noteq> 0 then (if uppercase f then ''0X'' else ''0x'') else [],
           digits Hex (uppercase f) (unat w)))"

definition num_text :: "fmtflags \<Rightarrow> c_int \<Rightarrow> string" where
  "num_text f w = fst (num_parts f w) @ snd (num_parts f w)"

definition pad_num :: "ostream \<Rightarrow> c_int \<Rightarrow> string" where
  "pad_num os w =
     (case num_parts (flags os) w of
        (p, d) \<Rightarrow>
          (let fills = replicate (width os - length (p @ d)) (fill os)
           in case adjust (flags os) of
                Adjust_left \<Rightarrow> p @ d @ fills
              | Adjust_internal \<Rightarrow> p @ fills @ d
              | Adjust_right \<Rightarrow> fills @ p @ d))"

definition put_int :: "c_int \<Rightarrow> ostream \<Rightarrow> ostream outcome" where
  "put_int w os =
     (if good os then write_chars (pad_num os w) (os\<lparr>width := 0\<rparr>)
      else sentry_not_ok os)"

text \<open>
  \<^verbatim>\<open>out << std::endl\<close> calls \<^verbatim>\<open>out.put('\n')\<close> and then \<^verbatim>\<open>out.flush()\<close>. Both are unformatted:
  they construct a sentry and leave the width alone. The character is the byte 10.
\<close>

definition put_char :: "char \<Rightarrow> ostream \<Rightarrow> ostream outcome" where
  "put_char ch os = (if good os then write_chars [ch] os else sentry_not_ok os)"

definition flush :: "ostream \<Rightarrow> ostream outcome" where
  "flush os = (if good os then Returns os else sentry_not_ok os)"

definition endl :: "ostream \<Rightarrow> ostream outcome" where
  "endl os =
     (case put_char (CHR 0x0A) os of
        Returns os1 \<Rightarrow> flush os1
      | Throws os1 \<Rightarrow> Throws os1)"

subsection \<open>Statistics\<close>

text \<open>
  \<^verbatim>\<open>out << a << b << c;\<close> applies the three to the stream in turn, and an exception ends the
  statement and the function.
\<close>

fun andthen :: "ostream outcome \<Rightarrow> (ostream \<Rightarrow> ostream outcome) \<Rightarrow> ostream outcome" where
  "andthen (Returns os) f = f os"
| "andthen (Throws os) f = Throws os"

text \<open>
  \<^verbatim>\<open>statistics\<close> is a \<^verbatim>\<open>const\<close> member function: besides what became of the stream, the
  model returns the cache it was called on. The subtraction is one of \<^verbatim>\<open>int\<close>.
\<close>

definition statistics :: "ostream \<Rightarrow> ('k, 'v) cache \<Rightarrow> ostream outcome \<times> ('k, 'v) cache" where
  "statistics out c =
     (foldl andthen (Returns out)
        [put_string ''cache found hits:'', put_int (found_hits (stats c)), endl,
         put_string ''cache found     :'', put_int (found (stats c)), endl,
         put_string ''cache removed   :'', put_int (removed (stats c)), endl,
         put_string ''cache missed    :'', put_int (found_hits (stats c) - found (stats c)), endl],
      c)"

text \<open>
  Reading a number back from its text, to say what a written text means: the digits
  in the base, after an optional sign in decimal and an optional \<^verbatim>\<open>0x\<close> or \<^verbatim>\<open>0X\<close> in
  hexadecimal.
\<close>

definition digit_value :: "char \<Rightarrow> nat option" where
  "digit_value = map_of
     [(CHR ''0'', 0), (CHR ''1'', 1), (CHR ''2'', 2), (CHR ''3'', 3), (CHR ''4'', 4),
      (CHR ''5'', 5), (CHR ''6'', 6), (CHR ''7'', 7), (CHR ''8'', 8), (CHR ''9'', 9),
      (CHR ''a'', 10), (CHR ''b'', 11), (CHR ''c'', 12), (CHR ''d'', 13), (CHR ''e'', 14),
      (CHR ''f'', 15), (CHR ''A'', 10), (CHR ''B'', 11), (CHR ''C'', 12), (CHR ''D'', 13),
      (CHR ''E'', 14), (CHR ''F'', 15)]"

fun read_from :: "basefield \<Rightarrow> nat \<Rightarrow> string \<Rightarrow> nat option" where
  "read_from b acc [] = Some acc"
| "read_from b acc (ch # cs) =
     (case digit_value ch of
        None \<Rightarrow> None
      | Some d \<Rightarrow> if d < radix b then read_from b (acc * radix b + d) cs else None)"




text \<open>The stream after its buffer has taken the text \<open>s\<close>.\<close>

definition appended :: "string \<Rightarrow> ostream \<Rightarrow> ostream" where
  "appended s os =
     os\<lparr>buffer := buffer os @ s, room := map_option (\<lambda>m. m - length s) (room os)\<rparr>"



subsection \<open>Well-formed states\<close>

text \<open>
  The list and the map are linked when no two nodes share a handle or a key, the keys
  of the list are the keys of the map, and the iterator stored with a key names the node
  that holds the key.
\<close>

definition linked :: "'k lru \<Rightarrow> ('k \<rightharpoonup> 'v cached_value) \<Rightarrow> bool" where
  "linked xs t \<longleftrightarrow>
     distinct (map fst xs) \<and> distinct (map snd xs) \<and>
     (\<forall>k. t k = None \<longrightarrow> k \<notin> snd ` set xs) \<and>
     (\<forall>k cv. t k = Some cv \<longrightarrow> (cache_i cv, k) \<in> set xs)"

definition cache_inv :: "('k, 'v) cache \<Rightarrow> bool" where
  "cache_inv c \<longleftrightarrow> linked (lru_list c) (table c)"

definition fits :: "('k, 'v) cache \<Rightarrow> bool" where
  "fits c \<longleftrightarrow> length (lru_list c) \<le> unat (maxsize c)"

text \<open>The keys of the list are in the order of their last touch, latest first.\<close>

definition recency_ordered :: "('k, 'v) operation list \<Rightarrow> ('k, 'v) cache \<Rightarrow> bool" where
  "recency_ordered ops c \<longleftrightarrow>
     sorted_wrt (\<lambda>a b. last_touch ops b < last_touch ops a) (keys c)"

section \<open>Lists of nodes\<close>

lemma fold_max_ge: "a \<le> fold max ys (a::nat)"
  by (induction ys arbitrary: a) (auto intro: order_trans [OF max.cobounded2])

lemma fold_max_mem: "x \<in> set ys \<Longrightarrow> x \<le> fold max ys (a::nat)"
proof (induction ys arbitrary: a)
  case Nil then show ?case by simp
next
  case (Cons y ys)
  show ?case
  proof (cases "x = y")
    case True
    have "y \<le> max y a" by simp
    also have "\<dots> \<le> fold max ys (max y a)" by (rule fold_max_ge)
    finally show ?thesis using True by simp
  next
    case False
    with Cons show ?thesis by simp
  qed
qed

lemma new_node_fresh: "new_node xs \<notin> fst ` set xs"
proof
  assume "new_node xs \<in> fst ` set xs"
  then have "new_node xs \<in> set (map fst xs)" by simp
  then have "new_node xs \<le> fold max (map fst xs) 0" by (rule fold_max_mem)
  then show False by (simp add: new_node_def)
qed

lemma filter_handle_remove1:
  "distinct (map fst xs) \<Longrightarrow> (li, k) \<in> set xs \<Longrightarrow>
   filter (\<lambda>m. fst m \<noteq> li) xs = remove1 (li, k) xs"
proof (induction xs)
  case Nil then show ?case by simp
next
  case (Cons x xs)
  show ?case
  proof (cases "x = (li, k)")
    case True
    with Cons.prems have "\<forall>m\<in>set xs. fst m \<noteq> li" by force
    then have "filter (\<lambda>m. fst m \<noteq> li) xs = xs" by simp
    with True show ?thesis by simp
  next
    case False
    with Cons.prems have in_xs: "(li, k) \<in> set xs" by simp
    then have "li \<in> fst ` set xs" by force
    with Cons.prems have "fst x \<noteq> li" by auto
    with Cons in_xs False show ?thesis by simp
  qed
qed

lemma find_handle:
  "distinct (map fst xs) \<Longrightarrow> (li, k) \<in> set xs \<Longrightarrow>
   List.find (\<lambda>n. fst n = li) xs = Some (li, k)"
proof (induction xs)
  case Nil then show ?case by simp
next
  case (Cons x xs)
  show ?case
  proof (cases "x = (li, k)")
    case True then show ?thesis by simp
  next
    case False
    with Cons.prems have in_xs: "(li, k) \<in> set xs" by simp
    then have "li \<in> fst ` set xs" by force
    with Cons.prems have "fst x \<noteq> li" by auto
    with Cons in_xs show ?thesis by simp
  qed
qed

lemma splice_front_node:
  "distinct (map fst xs) \<Longrightarrow> (li, k) \<in> set xs \<Longrightarrow>
   splice_front li xs = (li, k) # remove1 (li, k) xs"
  by (simp add: splice_front_def find_handle filter_handle_remove1)

lemma map_snd_remove1:
  "distinct (map snd xs) \<Longrightarrow> (li, k) \<in> set xs \<Longrightarrow>
   map snd (remove1 (li, k) xs) = remove1 k (map snd xs)"
proof (induction xs)
  case Nil then show ?case by simp
next
  case (Cons x xs)
  show ?case
  proof (cases "x = (li, k)")
    case True then show ?thesis by simp
  next
    case False
    with Cons.prems have in_xs: "(li, k) \<in> set xs" by simp
    then have "k \<in> snd ` set xs" by force
    with Cons.prems have "snd x \<noteq> k" by auto
    with Cons in_xs False show ?thesis by simp
  qed
qed

section \<open>Well-formed states are kept\<close>

lemma linked_empty: "linked [] Map.empty"
  by (simp add: linked_def)

lemma map_fst_remove1:
  "distinct (map fst xs) \<Longrightarrow> (li, k) \<in> set xs \<Longrightarrow>
   map fst (remove1 (li, k) xs) = remove1 li (map fst xs)"
proof (induction xs)
  case Nil then show ?case by simp
next
  case (Cons x xs)
  show ?case
  proof (cases "x = (li, k)")
    case True then show ?thesis by simp
  next
    case False
    with Cons.prems have in_xs: "(li, k) \<in> set xs" by simp
    then have "li \<in> fst ` set xs" by force
    with Cons.prems have "fst x \<noteq> li" by auto
    with Cons in_xs False show ?thesis by simp
  qed
qed

lemma linked_splice:
  assumes l: "linked xs t" and k: "t k = Some cv"
  shows "linked ((cache_i cv, k) # remove1 (cache_i cv, k) xs) t"
proof -
  let ?n = "(cache_i cv, k)"
  from l k have mem: "?n \<in> set xs" by (simp add: linked_def)
  from l have df: "distinct (map fst xs)" and ds: "distinct (map snd xs)"
    by (simp_all add: linked_def)
  from df have d: "distinct xs" by (simp add: distinct_map)
  have s: "set (?n # remove1 ?n xs) = set xs"
    using d mem by (auto simp: set_remove1_eq)
  have df': "distinct (map fst (?n # remove1 ?n xs))"
    using df mem by (simp add: map_fst_remove1)
  have ds': "distinct (map snd (?n # remove1 ?n xs))"
    using ds mem by (simp add: map_snd_remove1)
  from l have "(\<forall>k. t k = None \<longrightarrow> k \<notin> snd ` set xs) \<and>
     (\<forall>k cv. t k = Some cv \<longrightarrow> (cache_i cv, k) \<in> set xs)" by (simp add: linked_def)
  with df' ds' show ?thesis unfolding linked_def s by blast
qed

lemma linked_assign:
  assumes l: "linked xs t" and k: "t k = Some cv"
  shows "linked xs (t(k \<mapsto> cv\<lparr>val := v\<rparr>))"
  using assms by (auto simp: linked_def)

lemma linked_push:
  assumes l: "linked xs t" and k: "t k = None"
  shows "linked ((new_node xs, k) # xs) (t(k \<mapsto> \<lparr>val = v, cache_i = new_node xs\<rparr>))"
  using assms new_node_fresh [of xs] by (auto simp: linked_def)

lemma last_key_not_in_butlast:
  assumes "distinct (map snd xs)" "xs \<noteq> []"
  shows "snd (last xs) \<notin> snd ` set (butlast xs)"
proof -
  from assms(2) have "xs = butlast xs @ [last xs]" by simp
  then have "distinct (map snd (butlast xs @ [last xs]))" using assms(1) by simp
  then show ?thesis by auto
qed

lemma linked_pop:
  assumes l: "linked xs t" and ne: "xs \<noteq> []"
  shows "linked (butlast xs) (t(snd (last xs) := None))"
proof -
  from l have df: "distinct (map fst xs)" and ds: "distinct (map snd xs)"
    by (simp_all add: linked_def)
  have nb: "snd (last xs) \<notin> snd ` set (butlast xs)"
    using ds ne by (rule last_key_not_in_butlast)
  have sub: "set (butlast xs) \<subseteq> set xs" by (auto dest: in_set_butlastD)
  have split: "set xs = insert (last xs) (set (butlast xs))"
    using ne by (metis append_butlast_last_id list.simps(15) rotate1.simps(2) set_rotate1)
  have a: "distinct (map fst (butlast xs))" using df by (simp add: distinct_butlast map_butlast)
  have b: "distinct (map snd (butlast xs))" using ds by (simp add: distinct_butlast map_butlast)
  have c: "\<forall>k. (t(snd (last xs) := None)) k = None \<longrightarrow> k \<notin> snd ` set (butlast xs)"
    using l nb sub by (auto simp: linked_def)
  have d: "\<forall>k cv. (t(snd (last xs) := None)) k = Some cv \<longrightarrow> (cache_i cv, k) \<in> set (butlast xs)"
  proof (intro allI impI)
    fix k cv assume h: "(t(snd (last xs) := None)) k = Some cv"
    then have kne: "k \<noteq> snd (last xs)" and tk: "t k = Some cv" by (auto split: if_splits)
    from l tk have "(cache_i cv, k) \<in> set xs" by (simp add: linked_def)
    with split have "(cache_i cv, k) = last xs \<or> (cache_i cv, k) \<in> set (butlast xs)" by auto
    moreover have "(cache_i cv, k) \<noteq> last xs" using kne by (metis snd_conv)
    ultimately show "(cache_i cv, k) \<in> set (butlast xs)" by blast
  qed
  from a b c d show ?thesis by (simp add: linked_def)
qed

lemma linked_dom: "linked xs t \<Longrightarrow> dom t = snd ` set xs"
  by (force simp: linked_def dom_def)


lemma inv_present:
  "cache_inv c \<Longrightarrow> table c k = Some cv \<Longrightarrow> (cache_i cv, k) \<in> set (lru_list c)"
  unfolding cache_inv_def linked_def by blast

lemma cache_inv_Cache: "cache_inv (Cache sz)"
  by (simp add: cache_inv_def Cache_def linked_empty)

text \<open>What each call does to each field.\<close>

lemma find_maxsize: "maxsize (snd (find_cache k c)) = maxsize c"
  by (simp add: find_cache_def Let_def split: option.split)

lemma find_result: "fst (find_cache k c) = map_option val (table c k)"
  by (simp add: find_cache_def Let_def split: option.split)

lemma find_miss:
  "table c k = None \<Longrightarrow>
   find_cache k c = (None, c\<lparr>stats := (stats c)\<lparr>found_hits := found_hits (stats c) + 1\<rparr>\<rparr>)"
  by (simp add: find_cache_def)

lemma find_hit:
  assumes "cache_inv c" "table c k = Some cv"
  shows "find_cache k c =
    (Some (val cv),
     c\<lparr>lru_list := (cache_i cv, k) # remove1 (cache_i cv, k) (lru_list c),
       stats := (stats c)\<lparr>found_hits := found_hits (stats c) + 1, found := found (stats c) + 1\<rparr>\<rparr>)"
proof -
  from assms have "(cache_i cv, k) \<in> set (lru_list c)" by (simp add: cache_inv_def linked_def)
  moreover from assms have "distinct (map fst (lru_list c))" by (simp add: cache_inv_def linked_def)
  ultimately have "splice_front (cache_i cv) (lru_list c) = (cache_i cv, k) # remove1 (cache_i cv, k) (lru_list c)"
    by (simp add: splice_front_node)
  then show ?thesis using assms(2) by (simp add: find_cache_def Let_def)
qed

lemma insert_hit:
  assumes "cache_inv c" "table c k = Some cv"
  shows "insert_cache k v c =
     c\<lparr>lru_list := (cache_i cv, k) # remove1 (cache_i cv, k) (lru_list c),
       table := (table c)(k \<mapsto> cv\<lparr>val := v\<rparr>),
       stats := (stats c)\<lparr>found_hits := found_hits (stats c) + 1, found := found (stats c) + 1\<rparr>\<rparr>"
  using assms(2) by (simp add: insert_cache_def find_hit [OF assms] assign_value_def)

lemma insert_miss_fits:
  assumes "table c k = None" "Suc (length (lru_list c)) \<le> unat (maxsize c)"
  shows "insert_cache k v c =
     c\<lparr>lru_list := (new_node (lru_list c), k) # lru_list c,
       table := (table c)(k \<mapsto> \<lparr>val = v, cache_i = new_node (lru_list c)\<rparr>),
       stats := (stats c)\<lparr>found_hits := found_hits (stats c) + 1\<rparr>\<rparr>"
  using assms
  by (simp add: insert_cache_def find_miss push_front_def begin_iter_def map_insert_def Let_def)

lemma insert_miss_evicts:
  assumes "table c k = None" "unat (maxsize c) \<le> length (lru_list c)"
  shows "insert_cache k v c =
     c\<lparr>lru_list := butlast ((new_node (lru_list c), k) # lru_list c),
       table := ((table c)(k \<mapsto> \<lparr>val = v, cache_i = new_node (lru_list c)\<rparr>))
                  (snd (last ((new_node (lru_list c), k) # lru_list c)) := None),
       stats := (stats c)\<lparr>found_hits := found_hits (stats c) + 1, removed := removed (stats c) + 1\<rparr>\<rparr>"
  using assms
  by (simp add: insert_cache_def find_miss push_front_def begin_iter_def map_insert_def Let_def
      back_key_def pop_back_def)

lemma find_inv: assumes "cache_inv c" shows "cache_inv (snd (find_cache k c))"
proof (cases "table c k")
  case None
  with assms show ?thesis by (simp add: find_miss cache_inv_def)
next
  case (Some cv)
  with assms show ?thesis by (simp add: find_hit cache_inv_def linked_splice)
qed

lemma find_fits: assumes "cache_inv c" "fits c" shows "fits (snd (find_cache k c))"
proof (cases "table c k")
  case None
  with assms show ?thesis by (simp add: find_miss fits_def)
next
  case (Some cv)
  with assms have "(cache_i cv, k) \<in> set (lru_list c)" by (simp add: cache_inv_def linked_def)
  then have "length (remove1 (cache_i cv, k) (lru_list c)) = length (lru_list c) - 1"
    by (simp add: length_remove1)
  moreover have "lru_list c \<noteq> []" using \<open>(cache_i cv, k) \<in> set (lru_list c)\<close> by auto
  ultimately show ?thesis using assms Some by (simp add: find_hit fits_def)
qed

lemma insert_inv: assumes "cache_inv c" shows "cache_inv (insert_cache k v c)"
proof (cases "table c k")
  case (Some cv)
  from assms have l: "linked (lru_list c) (table c)" by (simp add: cache_inv_def)
  have "linked ((cache_i cv, k) # remove1 (cache_i cv, k) (lru_list c)) (table c)"
    using l Some by (rule linked_splice)
  then have "linked ((cache_i cv, k) # remove1 (cache_i cv, k) (lru_list c)) ((table c)(k \<mapsto> cv\<lparr>val := v\<rparr>))"
    using Some by (rule linked_assign)
  then show ?thesis by (simp add: insert_hit [OF assms Some] cache_inv_def)
next
  case None
  from assms have l: "linked (lru_list c) (table c)" by (simp add: cache_inv_def)
  let ?xs = "(new_node (lru_list c), k) # lru_list c"
  let ?t = "(table c)(k \<mapsto> \<lparr>val = v, cache_i = new_node (lru_list c)\<rparr>)"
  have p: "linked ?xs ?t" using l None by (rule linked_push)
  show ?thesis
  proof (cases "unat (maxsize c) \<le> length (lru_list c)")
    case True
    have "linked (butlast ?xs) (?t(snd (last ?xs) := None))" using p by (rule linked_pop) simp
    then show ?thesis by (simp add: insert_miss_evicts [OF None True] cache_inv_def)
  next
    case False
    then have "Suc (length (lru_list c)) \<le> unat (maxsize c)" by simp
    from insert_miss_fits [OF None this] p show ?thesis by (simp add: cache_inv_def)
  qed
qed

lemma insert_maxsize: "maxsize (insert_cache k v c) = maxsize c"
  by (simp add: insert_cache_def find_cache_def Let_def split: option.split)

lemma insert_fits: assumes "cache_inv c" "fits c" shows "fits (insert_cache k v c)"
proof (cases "table c k")
  case (Some cv)
  with assms have "(cache_i cv, k) \<in> set (lru_list c)" by (simp add: cache_inv_def linked_def)
  then have "length (remove1 (cache_i cv, k) (lru_list c)) = length (lru_list c) - 1"
    and "lru_list c \<noteq> []" by (auto simp: length_remove1)
  then show ?thesis using assms(2) by (simp add: insert_hit [OF assms(1) Some] fits_def)
next
  case None
  show ?thesis
  proof (cases "unat (maxsize c) \<le> length (lru_list c)")
    case True
    have "length (butlast ((new_node (lru_list c), k) # lru_list c)) = length (lru_list c)"
      by (simp only: length_butlast length_Cons diff_Suc_1)
    with assms(2) show ?thesis
      by (simp add: insert_miss_evicts [OF None True] fits_def del: butlast.simps)
  next
    case False
    then have h: "Suc (length (lru_list c)) \<le> unat (maxsize c)" by simp
    then show ?thesis by (simp add: insert_miss_fits [OF None h] fits_def)
  qed
qed

lemma run_append: "run (ops @ ops') c = run ops' (run ops c)"
  by (induction ops arbitrary: c) simp_all

lemma run_snoc: "run (ops @ [op]) c = exec op (run ops c)"
  by (simp add: run_append)

lemma exec_inv: "cache_inv c \<Longrightarrow> cache_inv (exec op c)"
  by (cases op) (simp_all add: find_inv insert_inv)

lemma exec_fits: "cache_inv c \<Longrightarrow> fits c \<Longrightarrow> fits (exec op c)"
  by (cases op) (simp_all add: find_fits insert_fits)

lemma exec_maxsize: "maxsize (exec op c) = maxsize c"
  by (cases op) (simp_all add: find_maxsize insert_maxsize)

lemma run_inv: "cache_inv c \<Longrightarrow> cache_inv (run ops c)"
  by (induction ops arbitrary: c) (simp_all add: exec_inv)

lemma run_fits: "cache_inv c \<Longrightarrow> fits c \<Longrightarrow> fits (run ops c)"
  by (induction ops arbitrary: c) (simp_all add: exec_inv exec_fits)

lemma run_maxsize: "maxsize (run ops c) = maxsize c"
  by (induction ops arbitrary: c) (simp_all add: exec_maxsize)

lemma fits_Cache: "fits (Cache sz)"
  by (simp add: fits_def Cache_def)

lemma inv_card: assumes "cache_inv c" shows "card (dom (table c)) = length (lru_list c)"
proof -
  from assms have "dom (table c) = set (map snd (lru_list c))"
    by (simp add: cache_inv_def linked_dom)
  moreover from assms have "distinct (map snd (lru_list c))" by (simp add: cache_inv_def linked_def)
  ultimately show ?thesis using distinct_card [of "map snd (lru_list c)"] by simp
qed

lemma unat_pos_sint:
  assumes "0 < sint (sz :: c_int)"
  shows "unat sz = nat (sint sz)"
proof -
  have "sint sz < 2 ^ (LENGTH(32) - 1)" by (rule sint_lt)
  then have "sint sz < 2 ^ LENGTH(32)" by simp
  with assms have "take_bit LENGTH(32) (sint sz) = sint sz"
    by (simp add: take_bit_int_eq_self)
  then have "uint sz = sint sz" by (simp add: uint_sint)
  then show ?thesis by (simp add: unat_eq_nat_uint)
qed


lemma maxsize_run_Cache:
  "0 < sint sz \<Longrightarrow> unat (maxsize (run ops (Cache sz))) = nat (sint sz)"
  by (simp add: run_maxsize Cache_def unat_pos_sint)

text \<open>The equations that run the calls on concrete arguments.\<close>

lemmas run_eqs = insert_cache_def find_cache_def Cache_def Let_def
  push_front_def begin_iter_def map_insert_def assign_value_def back_key_def pop_back_def
  splice_front_def new_node_def keys_def overflowing_def

section \<open>The capacity bound\<close>

text \<open>
  C1. A cache constructed with a capacity of at least 1 never holds more entries than
  its capacity after any sequence of \<^verbatim>\<open>insert\<close> (and \<^verbatim>\<open>find\<close>) calls, and the map and
  the list always have the same number of entries.
\<close>

theorem capacity_bound:
  assumes "0 < sint sz"
  shows "length (lru_list (run ops (Cache sz))) \<le> nat (sint sz) \<and>
         card (dom (table (run ops (Cache sz)))) = length (lru_list (run ops (Cache sz)))"
proof -
  let ?c = "run ops (Cache sz) :: ('a, 'b) cache"
  have inv: "cache_inv ?c" by (rule run_inv) (rule cache_inv_Cache)
  have "fits ?c" using cache_inv_Cache fits_Cache by (rule run_fits)
  then have "length (lru_list ?c) \<le> unat (maxsize (Cache sz :: ('a, 'b) cache))"
    by (simp add: fits_def run_maxsize)
  then have "length (lru_list ?c) \<le> nat (sint sz)"
    using assms by (simp add: Cache_def unat_pos_sint)
  with inv_card [OF inv] show ?thesis by simp
qed

theorem capacity_bound_witness:
  "0 < sint (2 :: c_int) \<and>
   length (lru_list (run [Insert ''a'' (1::nat), Insert ''b'' 2, Insert ''c'' 3] (Cache 2))) \<le> nat (sint (2 :: c_int)) \<and>
   card (dom (table (run [Insert ''a'' (1::nat), Insert ''b'' 2, Insert ''c'' 3] (Cache 2)))) =
     length (lru_list (run [Insert ''a'' (1::nat), Insert ''b'' 2, Insert ''c'' 3] (Cache 2)))"
  using capacity_bound [of 2 "[Insert ''a'' (1::nat), Insert ''b'' 2, Insert ''c'' 3]"] by simp

section \<open>The order of the list is the order of the last touch\<close>

lemma last_touch_le: "last_touch ops k \<le> length ops"
  by (induction ops) auto

lemma last_touch_snoc:
  "last_touch (ops @ [op]) k = (if key_of op = k then Suc (length ops) else last_touch ops k)"
proof (induction ops)
  case Nil then show ?case by simp
next
  case (Cons a ops)
  then show ?case by simp
qed

lemma sorted_wrt_remove1: "sorted_wrt P xs \<Longrightarrow> sorted_wrt P (remove1 x xs)"
proof (induction xs)
  case Nil then show ?case by simp
next
  case (Cons y ys)
  have "set (remove1 x ys) \<subseteq> set ys" by (rule set_remove1_subset)
  with Cons show ?case by auto
qed

lemma sorted_wrt_butlast: "sorted_wrt P xs \<Longrightarrow> sorted_wrt P (butlast xs)"
proof (induction xs)
  case Nil then show ?case by simp
next
  case (Cons y ys)
  then show ?case by (auto dest: in_set_butlastD)
qed

lemma sorted_wrt_last:
  assumes "sorted_wrt P xs" "x \<in> set (butlast xs)"
  shows "P x (last xs)"
proof -
  from assms(2) have ne: "xs \<noteq> []" by auto
  then have "xs = butlast xs @ [last xs]" by simp
  then have "sorted_wrt P (butlast xs @ [last xs])" using assms(1) by simp
  with assms(2) show ?thesis by (simp add: sorted_wrt_append)
qed

text \<open>A touch of \<open>k\<close> puts \<open>k\<close> in front of keys that were in order before.\<close>

lemma touch_front:
  assumes ord: "sorted_wrt (\<lambda>a b. last_touch ops b < last_touch ops a) ks"
    and k: "k \<notin> set ks" and op: "key_of op = k"
  shows "sorted_wrt (\<lambda>a b. last_touch (ops @ [op]) b < last_touch (ops @ [op]) a) (k # ks)"
proof -
  have same: "\<And>a. a \<in> set ks \<Longrightarrow> last_touch (ops @ [op]) a = last_touch ops a"
    using k op by (auto simp: last_touch_snoc)
  have "sorted_wrt (\<lambda>a b. last_touch (ops @ [op]) b < last_touch (ops @ [op]) a) ks"
    using _ ord by (rule sorted_wrt_mono_rel) (simp add: same)
  moreover have "\<forall>a\<in>set ks. last_touch (ops @ [op]) a < last_touch (ops @ [op]) k"
  proof
    fix a assume a: "a \<in> set ks"
    have "last_touch ops a \<le> length ops" by (rule last_touch_le)
    with same [OF a] op show "last_touch (ops @ [op]) a < last_touch (ops @ [op]) k"
      by (simp add: last_touch_snoc)
  qed
  ultimately show ?thesis by simp
qed

lemma keys_find_hit:
  assumes "cache_inv c" "table c k = Some cv"
  shows "keys (snd (find_cache k c)) = k # remove1 k (keys c)"
proof -
  from assms have "(cache_i cv, k) \<in> set (lru_list c)" by (simp add: cache_inv_def linked_def)
  moreover from assms have "distinct (map snd (lru_list c))" by (simp add: cache_inv_def linked_def)
  ultimately show ?thesis by (simp add: find_hit [OF assms] keys_def map_snd_remove1)
qed

lemma keys_insert_hit:
  assumes "cache_inv c" "table c k = Some cv"
  shows "keys (insert_cache k v c) = k # remove1 k (keys c)"
proof -
  from assms have "(cache_i cv, k) \<in> set (lru_list c)" by (simp add: cache_inv_def linked_def)
  moreover from assms have "distinct (map snd (lru_list c))" by (simp add: cache_inv_def linked_def)
  ultimately show ?thesis by (simp add: insert_hit [OF assms] keys_def map_snd_remove1)
qed

lemma keys_insert_miss:
  assumes "table c k = None"
  shows "keys (insert_cache k v c) =
    (if unat (maxsize c) \<le> length (lru_list c) then butlast (k # keys c) else k # keys c)"
proof (cases "unat (maxsize c) \<le> length (lru_list c)")
  case True
  have "map snd (butlast ((new_node (lru_list c), k) # lru_list c)) = butlast (k # map snd (lru_list c))"
    by (simp only: map_butlast list.map snd_conv)
  with True show ?thesis
    by (simp add: insert_miss_evicts [OF assms True] keys_def del: butlast.simps)
next
  case False
  then have "Suc (length (lru_list c)) \<le> unat (maxsize c)" by simp
  from insert_miss_fits [OF assms this] False show ?thesis by (simp add: keys_def)
qed

lemma inv_distinct_keys: "cache_inv c \<Longrightarrow> distinct (keys c)"
  by (simp add: cache_inv_def linked_def keys_def)

lemma inv_keys_dom: "cache_inv c \<Longrightarrow> set (keys c) = dom (table c)"
  by (simp add: cache_inv_def linked_dom keys_def)

lemma touch_resident:
  assumes inv: "cache_inv c" and ord: "recency_ordered ops c" and op: "key_of op = k"
  shows "sorted_wrt (\<lambda>a b. last_touch (ops @ [op]) b < last_touch (ops @ [op]) a)
           (k # remove1 k (keys c))"
proof (rule touch_front [OF _ _ op])
  show "sorted_wrt (\<lambda>a b. last_touch ops b < last_touch ops a) (remove1 k (keys c))"
    using ord by (simp add: recency_ordered_def sorted_wrt_remove1)
  show "k \<notin> set (remove1 k (keys c))"
    using inv_distinct_keys [OF inv] by simp
qed

lemma exec_recency_ordered:
  assumes inv: "cache_inv c" and ord: "recency_ordered ops c"
  shows "recency_ordered (ops @ [op]) (exec op c)"
proof (cases op)
  case (Find k)
  show ?thesis
  proof (cases "table c k")
    case None
    then have "k \<notin> set (keys c)" using inv_keys_dom [OF inv] by (auto simp: dom_def)
    then have same: "\<And>a. a \<in> set (keys c) \<Longrightarrow> last_touch (ops @ [op]) a = last_touch ops a"
      using Find by (auto simp: last_touch_snoc)
    from ord have "sorted_wrt (\<lambda>a b. last_touch ops b < last_touch ops a) (keys c)"
      by (simp add: recency_ordered_def)
    with _ have "sorted_wrt (\<lambda>a b. last_touch (ops @ [op]) b < last_touch (ops @ [op]) a) (keys c)"
      by (rule sorted_wrt_mono_rel) (simp add: same)
    with None Find show ?thesis by (simp add: recency_ordered_def find_miss keys_def)
  next
    case (Some cv)
    have "key_of op = k" using Find by simp
    from touch_resident [OF inv ord this] Find show ?thesis
      by (simp add: recency_ordered_def keys_find_hit [OF inv Some])
  qed
next
  case (Insert k v)
  then have op: "key_of op = k" by simp
  show ?thesis
  proof (cases "table c k")
    case (Some cv)
    from touch_resident [OF inv ord op] Insert show ?thesis
      by (simp add: recency_ordered_def keys_insert_hit [OF inv Some])
  next
    case None
    then have "k \<notin> set (keys c)" using inv_keys_dom [OF inv] by (auto simp: dom_def)
    with ord have s: "sorted_wrt (\<lambda>a b. last_touch (ops @ [op]) b < last_touch (ops @ [op]) a) (k # keys c)"
      unfolding recency_ordered_def using op by (rule touch_front)
    then have "sorted_wrt (\<lambda>a b. last_touch (ops @ [op]) b < last_touch (ops @ [op]) a) (butlast (k # keys c))"
      by (rule sorted_wrt_butlast)
    with s Insert show ?thesis
      by (simp add: recency_ordered_def keys_insert_miss [OF None] del: butlast.simps)
  qed
qed

lemma run_recency_ordered: "recency_ordered ops (run ops (Cache sz))"
proof (induction ops rule: rev_induct)
  case Nil
  show ?case by (simp add: recency_ordered_def keys_def Cache_def)
next
  case (snoc op ops)
  have "cache_inv (run ops (Cache sz :: ('a, 'b) cache))" by (rule run_inv) (rule cache_inv_Cache)
  from exec_recency_ordered [OF this snoc] show ?case by (simp add: run_snoc)
qed


lemma last_butlast_distinct:
  assumes "distinct xs" "x \<in> set xs" "x \<noteq> last xs"
  shows "x \<in> set (butlast xs)"
proof -
  from assms(2) have "xs \<noteq> []" by auto
  then have "xs = butlast xs @ [last xs]" by simp
  then have "set xs = set (butlast xs) \<union> {last xs}" by (metis set_append list.set(1,2))
  with assms show ?thesis by auto
qed

text \<open>
  C2. When an \<^verbatim>\<open>insert\<close> of an absent key overflows a cache of capacity at least 1, a
  key is evicted; the evicted key leaves the map and the list, every other resident key
  stays, and the evicted key was touched (by \<^verbatim>\<open>find\<close> or \<^verbatim>\<open>insert\<close>) before every other
  resident key and before the inserted key.
\<close>

theorem lru_eviction:
  assumes cap: "0 < sint sz"
    and c: "c = run ops (Cache sz)"
    and c': "c' = insert_cache k v c"
    and ops': "ops' = ops @ [Insert k v]"
    and over: "overflowing k c"
  shows "(\<exists>e. table c e \<noteq> None \<and> table c' e = None) \<and>
         (\<forall>e. table c e \<noteq> None \<and> table c' e = None \<longrightarrow>
              e \<notin> set (keys c') \<and>
              (\<forall>k'. k' \<noteq> e \<and> (table c k' \<noteq> None \<or> k' = k) \<longrightarrow>
                    table c' k' \<noteq> None \<and> k' \<in> set (keys c') \<and>
                    last_touch ops' e < last_touch ops' k'))"
proof -
  from over have absent: "table c k = None" and full: "unat (maxsize c) \<le> length (lru_list c)"
    by (simp_all add: overflowing_def)
  have inv: "cache_inv c" unfolding c by (rule run_inv) (rule cache_inv_Cache)
  have ord: "sorted_wrt (\<lambda>a b. last_touch ops b < last_touch ops a) (keys c)"
    using run_recency_ordered [of ops sz] by (simp add: c recency_ordered_def)
  have dist: "distinct (keys c)" using inv by (rule inv_distinct_keys)
  have dom: "set (keys c) = dom (table c)" using inv by (rule inv_keys_dom)
  have "unat (maxsize c) = nat (sint sz)" unfolding c using cap by (rule maxsize_run_Cache)
  with cap full have ne: "lru_list c \<noteq> []" by auto
  then have kne: "keys c \<noteq> []" by (simp add: keys_def)
  define e0 where "e0 = last (keys c)"
  have e0_last: "snd (last ((new_node (lru_list c), k) # lru_list c)) = e0"
    using ne by (simp add: e0_def keys_def last_map)
  have e0_in: "e0 \<in> set (keys c)" using kne by (simp add: e0_def)
  then have e0_res: "table c e0 \<noteq> None" using dom by auto
  with absent have e0k: "e0 \<noteq> k" by auto
  have k_notin: "k \<notin> set (keys c)" using absent dom by auto
  have tab: "\<And>x. table c' x =
      (if x = e0 then None
       else if x = k then Some \<lparr>val = v, cache_i = new_node (lru_list c)\<rparr> else table c x)"
    unfolding c' by (simp add: insert_miss_evicts [OF absent full] e0_last del: last.simps butlast.simps)
  have ks: "keys c' = k # butlast (keys c)"
    unfolding c' using kne full by (simp add: keys_insert_miss [OF absent])
  have e0_out: "e0 \<notin> set (butlast (keys c))"
    using dist kne unfolding e0_def by (metis append_butlast_last_id distinct_append
        disjoint_iff list.set_intros(1))
  have only: "\<And>e. table c e \<noteq> None \<Longrightarrow> table c' e = None \<Longrightarrow> e = e0"
    by (simp add: tab split: if_splits)
  have lt_e0: "last_touch ops' e0 = last_touch ops e0"
    using e0k by (simp add: ops' last_touch_snoc)
  have rest: "table c' k' \<noteq> None \<and> k' \<in> set (keys c') \<and> last_touch ops' e0 < last_touch ops' k'"
    if k': "k' \<noteq> e0" "table c k' \<noteq> None \<or> k' = k" for k'
  proof (cases "k' = k")
    case True
    have "last_touch ops e0 \<le> length ops" by (rule last_touch_le)
    with True e0k show ?thesis by (simp add: tab ks lt_e0 ops' last_touch_snoc)
  next
    case False
    with k' have "k' \<in> set (keys c)" using dom by auto
    with dist have mem: "k' \<in> set (butlast (keys c))"
      using k'(1) unfolding e0_def by (rule last_butlast_distinct)
    from sorted_wrt_last [OF ord mem] have "last_touch ops e0 < last_touch ops k'"
      by (simp add: e0_def)
    with False k' mem e0k show ?thesis by (simp add: tab ks lt_e0 ops' last_touch_snoc)
  qed
  have "table c e0 \<noteq> None \<and> table c' e0 = None" using e0_res by (simp add: tab)
  then have first: "\<exists>e. table c e \<noteq> None \<and> table c' e = None" by blast
  have second: "e \<notin> set (keys c') \<and>
      (\<forall>k'. k' \<noteq> e \<and> (table c k' \<noteq> None \<or> k' = k) \<longrightarrow>
            table c' k' \<noteq> None \<and> k' \<in> set (keys c') \<and> last_touch ops' e < last_touch ops' k')"
    if e: "table c e \<noteq> None \<and> table c' e = None" for e
  proof -
    from e have "e = e0" using only by blast
    with e0k e0_out rest show ?thesis by (simp add: ks)
  qed
  from first second show ?thesis by blast
qed


theorem lru_eviction_witness:
  "0 < sint (2 :: c_int) \<and>
   overflowing ''c'' (run [Insert ''a'' (1::nat), Insert ''b'' 2, Find ''a''] (Cache 2)) \<and>
   table (run [Insert ''a'' (1::nat), Insert ''b'' 2, Find ''a''] (Cache 2)) ''b'' \<noteq> None \<and>
   table (insert_cache ''c'' 3 (run [Insert ''a'' (1::nat), Insert ''b'' 2, Find ''a''] (Cache 2))) ''b'' = None \<and>
   ''b'' \<notin> set (keys (insert_cache ''c'' 3 (run [Insert ''a'' (1::nat), Insert ''b'' 2, Find ''a''] (Cache 2)))) \<and>
   table (insert_cache ''c'' 3 (run [Insert ''a'' (1::nat), Insert ''b'' 2, Find ''a''] (Cache 2))) ''a'' \<noteq> None \<and>
   last_touch [Insert ''a'' (1::nat), Insert ''b'' 2, Find ''a'', Insert ''c'' 3] ''b''
     < last_touch [Insert ''a'' (1::nat), Insert ''b'' 2, Find ''a'', Insert ''c'' 3] ''a''"
proof -
  let ?ops = "[Insert ''a'' (1::nat), Insert ''b'' 2, Find ''a'']"
  let ?c = "run ?ops (Cache 2) :: (string, nat) cache"
  let ?c' = "insert_cache ''c'' 3 ?c"
  have h1: "0 < sint (2 :: c_int)" by simp
  have h2: "overflowing ''c'' ?c" by (simp add: run_eqs)
  have b: "table ?c ''b'' \<noteq> None \<and> table ?c' ''b'' = None" by (simp add: run_eqs)
  have a: "''a'' \<noteq> ''b'' \<and> (table ?c ''a'' \<noteq> None \<or> ''a'' = ''c'')" by (simp add: run_eqs)
  note ev = lru_eviction [OF h1 refl refl refl h2, of 3, THEN conjunct2, THEN spec, THEN mp, OF b]
  note ev_a = ev [THEN conjunct2, THEN spec, THEN mp, OF a]
  from ev ev_a have "''b'' \<notin> set (keys ?c') \<and> table ?c' ''a'' \<noteq> None \<and>
      last_touch (?ops @ [Insert ''c'' 3]) ''b'' < last_touch (?ops @ [Insert ''c'' 3]) ''a''"
    by blast
  with h1 h2 b show ?thesis by simp
qed

section \<open>Construction\<close>

text \<open>
  C3 as stated fails: the constructor has no check, so a construction with capacity 0 or
  \<open>-1\<close> is not rejected.
\<close>

theorem construct_nonpositive_not_rejected:
  "sint (0 :: c_int) \<le> 0 \<and>
   \<not> isl (construct 0 :: construction_error + (string, nat) cache) \<and>
   sint (- 1 :: c_int) \<le> 0 \<and>
   \<not> isl (construct (- 1) :: construction_error + (string, nat) cache)"
  by (simp add: construct_def)

text \<open>
  C3, amended. Construction is accepted for every capacity, also 0 and the negative
  ones: it returns an empty cache with all counters 0 whose \<^verbatim>\<open>maxsize\<close> is the capacity
  converted to \<^verbatim>\<open>unsigned\<close>, that is, taken modulo \<open>2 ^ 32\<close>.
\<close>

theorem construct_accepts:
  "construct sz = Inr (Cache sz :: ('k, 'v) cache) \<and>
   lru_list (Cache sz :: ('k, 'v) cache) = [] \<and>
   table (Cache sz :: ('k, 'v) cache) = Map.empty \<and>
   stats (Cache sz :: ('k, 'v) cache) = \<lparr>found_hits = 0, found = 0, removed = 0, miss = 0\<rparr> \<and>
   int (unat (maxsize (Cache sz :: ('k, 'v) cache))) = sint sz mod 2 ^ 32"
proof -
  have "uint sz = sint sz mod 2 ^ 32"
    by (simp add: uint_sint take_bit_eq_mod)
  then show ?thesis by (simp add: construct_def Cache_def)
qed

section \<open>A miss\<close>

text \<open>
  C5. \<^verbatim>\<open>find\<close> of a key that is not in the cache returns the null pointer, leaves the
  map, the list, \<^verbatim>\<open>maxsize\<close> and the counters \<^verbatim>\<open>found\<close>, \<^verbatim>\<open>removed\<close> and \<^verbatim>\<open>miss\<close> as they
  were, and adds one to the counter of attempts, \<^verbatim>\<open>found_hits\<close>.
\<close>

theorem find_absent:
  assumes "table c k = None"
  shows "fst (find_cache k c) = None \<and>
         table (snd (find_cache k c)) = table c \<and>
         lru_list (snd (find_cache k c)) = lru_list c \<and>
         maxsize (snd (find_cache k c)) = maxsize c \<and>
         found (stats (snd (find_cache k c))) = found (stats c) \<and>
         removed (stats (snd (find_cache k c))) = removed (stats c) \<and>
         miss (stats (snd (find_cache k c))) = miss (stats c) \<and>
         found_hits (stats (snd (find_cache k c))) = found_hits (stats c) + 1"
  using assms by (simp add: find_miss)

theorem find_absent_witness:
  "table (insert_cache ''a'' (1::nat) (Cache 4)) ''b'' = None \<and>
   fst (find_cache ''b'' (insert_cache ''a'' (1::nat) (Cache 4))) = None \<and>
   lru_list (snd (find_cache ''b'' (insert_cache ''a'' (1::nat) (Cache 4)))) = [(1, ''a'')] \<and>
   found_hits (stats (snd (find_cache ''b'' (insert_cache ''a'' (1::nat) (Cache 4))))) = 2"
proof -
  have h: "table (insert_cache ''a'' (1::nat) (Cache 4)) ''b'' = None" by (simp add: run_eqs)
  have l: "lru_list (insert_cache ''a'' (1::nat) (Cache 4)) = [(1, ''a'')]" by (simp add: run_eqs)
  have s: "found_hits (stats (insert_cache ''a'' (1::nat) (Cache 4))) = 1" by (simp add: run_eqs)
  from find_absent [OF h] h l s show ?thesis by simp
qed

section \<open>The counters\<close>

lemma insert_found_hits:
  "found_hits (stats (insert_cache k v c)) = found_hits (stats c) + 1"
  by (simp add: insert_cache_def find_cache_def Let_def split: option.split)

lemma insert_found:
  "found (stats (insert_cache k v c)) =
     (if table c k = None then found (stats c) else found (stats c) + 1)"
  by (simp add: insert_cache_def find_cache_def Let_def split: option.split)

lemma insert_removed:
  "removed (stats (insert_cache k v c)) =
     (if overflowing k c then removed (stats c) + 1 else removed (stats c))"
  by (simp add: insert_cache_def find_cache_def Let_def overflowing_def push_front_def
      back_key_def split: option.split)

lemma find_found_hits:
  "found_hits (stats (snd (find_cache k c))) = found_hits (stats c) + 1"
  by (simp add: find_cache_def Let_def split: option.split)

lemma find_found:
  "found (stats (snd (find_cache k c))) =
     (if fst (find_cache k c) = None then found (stats c) else found (stats c) + 1)"
  by (simp add: find_cache_def Let_def split: option.split)

lemma find_removed: "removed (stats (snd (find_cache k c))) = removed (stats c)"
  by (simp add: find_cache_def Let_def split: option.split)

lemma run_found_hits:
  "found_hits (stats (run ops c)) = found_hits (stats c) + of_nat (finds ops + inserts ops)"
proof (induction ops arbitrary: c)
  case Nil
  show ?case by simp
next
  case (Cons op ops)
  show ?case by (cases op) (simp_all add: Cons find_found_hits insert_found_hits)
qed

text \<open>
  C9. Every \<^verbatim>\<open>insert\<close> adds one to the counter of attempts; an \<^verbatim>\<open>insert\<close> of a key that
  is in the cache adds one to \<^verbatim>\<open>found\<close> as well, and one of a new key leaves \<^verbatim>\<open>found\<close> as
  it was. So after any sequence of calls the counter of attempts has grown by the number
  of \<^verbatim>\<open>find\<close> calls plus the number of \<^verbatim>\<open>insert\<close> calls.
\<close>

theorem insert_counts_as_attempt:
  "found_hits (stats (insert_cache k v c)) = found_hits (stats c) + 1 \<and>
   (table c k \<noteq> None \<longrightarrow> found (stats (insert_cache k v c)) = found (stats c) + 1) \<and>
   (table c k = None \<longrightarrow> found (stats (insert_cache k v c)) = found (stats c)) \<and>
   found_hits (stats (run ops c)) = found_hits (stats c) + of_nat (finds ops + inserts ops)"
  by (simp add: insert_found_hits insert_found run_found_hits)

theorem insert_counts_as_attempt_witness:
  "table (insert_cache ''a'' (1::nat) (Cache 4)) ''a'' \<noteq> None \<and>
   found_hits (stats (insert_cache ''a'' 2 (insert_cache ''a'' (1::nat) (Cache 4)))) = 2 \<and>
   found (stats (insert_cache ''a'' 2 (insert_cache ''a'' (1::nat) (Cache 4)))) = 1 \<and>
   table (Cache 4 :: (string, nat) cache) ''a'' = None \<and>
   found (stats (insert_cache ''a'' (1::nat) (Cache 4))) = 0 \<and>
   found_hits (stats (run [Insert ''a'' (1::nat), Find ''b'', Insert ''a'' 2] (Cache 4))) = 3"
proof -
  let ?c0 = "Cache 4 :: (string, nat) cache"
  let ?c1 = "insert_cache ''a'' (1::nat) ?c0"
  have r: "table ?c1 ''a'' \<noteq> None" by (simp add: run_eqs)
  have a: "table ?c0 ''a'' = None" by (simp add: Cache_def)
  have s0: "stats ?c0 = \<lparr>found_hits = 0, found = 0, removed = 0, miss = 0\<rparr>" by (simp add: Cache_def)
  note i0 = insert_counts_as_attempt [of "''a''" 1 ?c0 "[]"]
  note i1 = insert_counts_as_attempt [of "''a''" 2 ?c1 "[]"]
  note i2 = insert_counts_as_attempt [of "''a''" 1 ?c0 "[Insert ''a'' (1::nat), Find ''b'', Insert ''a'' 2]"]
  from i0 a s0 have f0: "found_hits (stats ?c1) = 1 \<and> found (stats ?c1) = 0" by simp
  from i1 r f0 have f1: "found_hits (stats (insert_cache ''a'' 2 ?c1)) = 2 \<and>
      found (stats (insert_cache ''a'' 2 ?c1)) = 1" by simp
  from i2 s0 have f2: "found_hits (stats (run [Insert ''a'' (1::nat), Find ''b'', Insert ''a'' 2] ?c0)) = 3"
    by simp
  from r a f0 f1 f2 show ?thesis by simp
qed

section \<open>Capacity 0\<close>

lemma exec_zero:
  assumes "maxsize c = 0" "lru_list c = []" "table c = Map.empty"
  shows "maxsize (exec op c) = 0 \<and> lru_list (exec op c) = [] \<and> table (exec op c) = Map.empty"
  using assms by (cases op) (simp_all add: run_eqs)

lemma run_zero:
  assumes "maxsize c = 0" "lru_list c = []" "table c = Map.empty"
  shows "maxsize (run ops c) = 0 \<and> lru_list (run ops c) = [] \<and> table (run ops c) = Map.empty"
  using assms
proof (induction ops arbitrary: c)
  case Nil then show ?case by simp
next
  case (Cons op ops)
  from exec_zero [OF Cons.prems] show ?case by (simp add: Cons.IH)
qed

text \<open>
  C10. A cache constructed with capacity 0 is empty after every sequence of calls. Every
  key is then absent, and an \<^verbatim>\<open>insert\<close> finds the key it has just pushed at the back of
  the list, evicts that key, leaves the cache empty and adds one to \<^verbatim>\<open>removed\<close>.
\<close>

theorem capacity_zero:
  "lru_list (run ops (Cache 0)) = [] \<and>
   table (run ops (Cache 0)) = Map.empty \<and>
   back_key (push_front k (lru_list (run ops (Cache 0)))) = Some k \<and>
   lru_list (insert_cache k v (run ops (Cache 0))) = [] \<and>
   table (insert_cache k v (run ops (Cache 0))) = Map.empty \<and>
   removed (stats (insert_cache k v (run ops (Cache 0)))) = removed (stats (run ops (Cache 0))) + 1"
proof -
  let ?c = "run ops (Cache 0) :: ('a, 'b) cache"
  have z: "maxsize ?c = 0 \<and> lru_list ?c = [] \<and> table ?c = Map.empty"
    by (rule run_zero) (simp_all add: Cache_def)
  then have o: "overflowing k ?c" by (simp add: overflowing_def)
  from z have i: "lru_list (exec (Insert k v) ?c) = [] \<and> table (exec (Insert k v) ?c) = Map.empty"
    using exec_zero [of ?c "Insert k v"] by simp
  from z have b: "back_key (push_front k (lru_list ?c)) = Some k"
    by (simp add: back_key_def push_front_def)
  from z i b o show ?thesis by (simp add: insert_removed)
qed

section \<open>Overwriting a value\<close>

text \<open>
  C4. For a key that is in the cache, \<^verbatim>\<open>insert\<close> of the key with \<open>v1\<close> and then with
  \<open>v2\<close> leaves \<open>v2\<close> to be found. The second \<^verbatim>\<open>insert\<close> keeps the keys of the map and the
  number of entries, evicts nothing, and leaves the key at the front of the list, the
  other keys in the order they had.
\<close>

theorem insert_overwrites:
  assumes c: "c = run ops (Cache sz)"
    and res: "table c k \<noteq> None"
    and c1: "c1 = insert_cache k v1 c"
    and c2: "c2 = insert_cache k v2 c1"
  shows "fst (find_cache k c2) = Some v2 \<and>
         dom (table c2) = dom (table c1) \<and>
         card (dom (table c2)) = card (dom (table c1)) \<and>
         length (lru_list c2) = length (lru_list c1) \<and>
         removed (stats c2) = removed (stats c1) \<and>
         keys c2 = k # remove1 k (keys c1)"
proof -
  have inv: "cache_inv c" unfolding c by (rule run_inv) (rule cache_inv_Cache)
  from res obtain cv where cv: "table c k = Some cv" by auto
  have inv1: "cache_inv c1" unfolding c1 using inv by (rule insert_inv)
  have t1: "table c1 k = Some (cv\<lparr>val := v1\<rparr>)"
    unfolding c1 by (simp add: insert_hit [OF inv cv])
  have inv2: "cache_inv c2" unfolding c2 using inv1 by (rule insert_inv)
  note eq2 = insert_hit [OF inv1 t1, of v2]
  have t2: "table c2 k = Some (cv\<lparr>val := v2\<rparr>)"
    unfolding c2 by (simp add: eq2)
  have found: "fst (find_cache k c2) = Some v2" by (simp add: find_result t2)
  have dom: "dom (table c2) = dom (table c1)"
    unfolding c2 using t1 by (auto simp: eq2)
  have len: "length (lru_list c2) = length (lru_list c1)"
    using inv_card [OF inv1] inv_card [OF inv2] dom by simp
  have rem: "removed (stats c2) = removed (stats c1)"
    unfolding c2 by (simp add: eq2)
  have mem: "(cache_i (cv\<lparr>val := v1\<rparr>), k) \<in> set (lru_list c1)"
    using inv1 t1 by (rule inv_present)
  have "distinct (map snd (lru_list c1))" using inv1 by (simp add: cache_inv_def linked_def)
  then have ks: "keys c2 = k # remove1 k (keys c1)"
    unfolding c2 using mem by (simp add: eq2 keys_def map_snd_remove1)
  from found dom len rem ks show ?thesis by simp
qed

theorem insert_overwrites_witness:
  "table (run [Insert ''a'' (1::nat), Insert ''b'' 2] (Cache 2)) ''a'' \<noteq> None \<and>
   fst (find_cache ''a'' (insert_cache ''a'' 8 (insert_cache ''a'' 7
      (run [Insert ''a'' (1::nat), Insert ''b'' 2] (Cache 2))))) = Some 8 \<and>
   keys (insert_cache ''a'' 8 (insert_cache ''a'' 7
      (run [Insert ''a'' (1::nat), Insert ''b'' 2] (Cache 2)))) = [''a'', ''b'']"
proof -
  let ?c = "run [Insert ''a'' (1::nat), Insert ''b'' 2] (Cache 2) :: (string, nat) cache"
  have h: "table ?c ''a'' \<noteq> None" by (simp add: run_eqs)
  have k1: "keys (insert_cache ''a'' 7 ?c) = [''a'', ''b'']" by (simp add: run_eqs)
  from insert_overwrites [OF refl h refl refl, of 8 7] h k1 show ?thesis by simp
qed

section \<open>Accounting\<close>

lemma hits_le_finds: "hits ops c \<le> finds ops"
proof (induction ops arbitrary: c)
  case Nil show ?case by simp
next
  case (Cons op ops)
  show ?case
  proof (cases op)
    case (Find k)
    have "hits ops (exec (Find k) c) \<le> finds ops" by (rule Cons)
    with Find show ?thesis by simp
  next
    case (Insert k v)
    have "hits ops (exec (Insert k v) c) \<le> finds ops" by (rule Cons)
    with Insert show ?thesis by simp
  qed
qed

lemma updates_le_inserts: "updates ops c \<le> inserts ops"
proof (induction ops arbitrary: c)
  case Nil show ?case by simp
next
  case (Cons op ops)
  show ?case
  proof (cases op)
    case (Find k)
    have "updates ops (exec (Find k) c) \<le> inserts ops" by (rule Cons)
    with Find show ?thesis by simp
  next
    case (Insert k v)
    have "updates ops (exec (Insert k v) c) \<le> inserts ops" by (rule Cons)
    with Insert show ?thesis by simp
  qed
qed

lemma run_found:
  "found (stats (run ops c)) = found (stats c) + of_nat (hits ops c + updates ops c)"
proof (induction ops arbitrary: c)
  case Nil show ?case by simp
next
  case (Cons op ops)
  show ?case by (cases op) (simp_all add: Cons find_found insert_found)
qed

lemma run_removed:
  "removed (stats (run ops c)) = removed (stats c) + of_nat (overflows ops c)"
proof (induction ops arbitrary: c)
  case Nil show ?case by simp
next
  case (Cons op ops)
  show ?case by (cases op) (simp_all add: Cons find_removed insert_removed)
qed

text \<open>
  C6 as stated fails, because \<^verbatim>\<open>insert\<close> calls \<^verbatim>\<open>find\<close>: after two \<^verbatim>\<open>insert\<close> calls and one
  \<^verbatim>\<open>find\<close> call, which hits, the counter of attempts is 3 and not 1, \<^verbatim>\<open>found\<close> is 2 and not
  1, and the reported number of misses is 1 and not 0.
\<close>

theorem find_calls_only_counterexample:
  "finds [Insert ''a'' (1::nat), Insert ''a'' 2, Find ''a''] = 1 \<and>
   hits [Insert ''a'' (1::nat), Insert ''a'' 2, Find ''a''] (Cache 4) = 1 \<and>
   found_hits (stats (run [Insert ''a'' (1::nat), Insert ''a'' 2, Find ''a''] (Cache 4))) = 3 \<and>
   found (stats (run [Insert ''a'' (1::nat), Insert ''a'' 2, Find ''a''] (Cache 4))) = 2 \<and>
   found_hits (stats (run [Insert ''a'' (1::nat), Insert ''a'' 2, Find ''a''] (Cache 4)))
     - found (stats (run [Insert ''a'' (1::nat), Insert ''a'' 2, Find ''a''] (Cache 4))) = 1 \<and>
   found_hits (stats (run [Insert ''a'' (1::nat), Insert ''a'' 2, Find ''a''] (Cache 4)))
     \<noteq> of_nat (finds [Insert ''a'' (1::nat), Insert ''a'' 2, Find ''a''])"
  by (simp add: run_eqs)

text \<open>
  C6, amended. Starting from a fresh cache, after a sequence of calls the counter of
  attempts is the number of \<^verbatim>\<open>find\<close> calls plus the number of \<^verbatim>\<open>insert\<close> calls, \<^verbatim>\<open>found\<close> is
  the number of \<^verbatim>\<open>find\<close> calls that hit plus the number of \<^verbatim>\<open>insert\<close> calls of a key
  that was in the cache, and the reported number of misses is their difference; \<^verbatim>\<open>removed\<close>
  is the number of \<^verbatim>\<open>insert\<close> calls that overflowed, and one \<^verbatim>\<open>insert\<close> adds at most one to
  it. The counters are 32-bit integers, so the equalities are modulo \<open>2 ^ 32\<close>.
\<close>

theorem statistics_accounting:
  "found_hits (stats (run ops (Cache sz))) = of_nat (finds ops + inserts ops) \<and>
   found (stats (run ops (Cache sz))) = of_nat (hits ops (Cache sz) + updates ops (Cache sz)) \<and>
   found_hits (stats (run ops (Cache sz))) - found (stats (run ops (Cache sz))) =
     of_nat ((finds ops + inserts ops) - (hits ops (Cache sz) + updates ops (Cache sz))) \<and>
   removed (stats (run ops (Cache sz))) = of_nat (overflows ops (Cache sz)) \<and>
   (removed (stats (insert_cache k v c)) = removed (stats c) \<or>
    removed (stats (insert_cache k v c)) = removed (stats c) + 1)"
proof -
  let ?c0 = "Cache sz :: ('a, 'b) cache"
  have z: "stats ?c0 = \<lparr>found_hits = 0, found = 0, removed = 0, miss = 0\<rparr>"
    by (simp add: Cache_def)
  have a: "found_hits (stats (run ops ?c0)) = of_nat (finds ops + inserts ops)"
    by (simp add: run_found_hits z)
  have f: "found (stats (run ops ?c0)) = of_nat (hits ops ?c0 + updates ops ?c0)"
    by (simp add: run_found z)
  have "hits ops ?c0 + updates ops ?c0 \<le> finds ops + inserts ops"
    using hits_le_finds [of ops ?c0] updates_le_inserts [of ops ?c0] by simp
  then have m: "found_hits (stats (run ops ?c0)) - found (stats (run ops ?c0)) =
      of_nat ((finds ops + inserts ops) - (hits ops ?c0 + updates ops ?c0))"
    unfolding a f by (simp only: of_nat_diff)
  have r: "removed (stats (run ops ?c0)) = of_nat (overflows ops ?c0)"
    by (simp add: run_removed z)
  have o: "removed (stats (insert_cache k v c)) = removed (stats c) \<or>
      removed (stats (insert_cache k v c)) = removed (stats c) + 1"
    by (simp add: insert_removed)
  from a f m r o show ?thesis by blast
qed

theorem statistics_accounting_witness:
  "found_hits (stats (run [Insert ''a'' (1::nat), Insert ''b'' 2, Find ''a'', Find ''z'', Insert ''c'' 3] (Cache 2))) = 5 \<and>
   found (stats (run [Insert ''a'' (1::nat), Insert ''b'' 2, Find ''a'', Find ''z'', Insert ''c'' 3] (Cache 2))) = 1 \<and>
   removed (stats (run [Insert ''a'' (1::nat), Insert ''b'' 2, Find ''a'', Find ''z'', Insert ''c'' 3] (Cache 2))) = 1"
proof -
  let ?ops = "[Insert ''a'' (1::nat), Insert ''b'' 2, Find ''a'', Find ''z'', Insert ''c'' 3]"
  let ?c0 = "Cache 2 :: (string, nat) cache"
  have n: "finds ?ops + inserts ?ops = 5" by simp
  have h: "hits ?ops ?c0 + updates ?ops ?c0 = 1" by (simp add: run_eqs)
  have m: "overflows ?ops ?c0 = 1" by (simp add: run_eqs)
  note acc = statistics_accounting [of ?ops 2 "''a''" 1 ?c0, unfolded n h m]
  from acc have "found_hits (stats (run ?ops ?c0)) = of_nat 5"
    and "found (stats (run ?ops ?c0)) = of_nat 1"
    and "removed (stats (run ?ops ?c0)) = of_nat 1" by blast+
  then show ?thesis by (simp del: run.simps)
qed

section \<open>What the stream does with a text\<close>


lemma appended_fields [simp]:
  "rdstate (appended s os) = rdstate os"
  "exceptions (appended s os) = exceptions os"
  "flags (appended s os) = flags os"
  "width (appended s os) = width os"
  "fill (appended s os) = fill os"
  "buffer (appended s os) = buffer os @ s"
  by (simp_all add: appended_def)

lemma good_appended [simp]: "good (appended s os) = good os"
  by (simp add: good_def)

lemma good_width [simp]: "good (os\<lparr>width := n\<rparr>) = good os"
  by (simp add: good_def)













section \<open>What a stream that is not good does\<close>






section \<open>Reading a written number back\<close>

lemma digit_value_digit_char: "d < 16 \<Longrightarrow> digit_value (digit_char upper d) = Some d"
proof -
  assume "d < 16"
  then have "d \<in> set [0..<16]" by simp
  also have "[0..<16] = [0, 1, 2, 3, 4, 5, 6, 7, 8, 9, 10, 11, 12, 13, 14, 15 :: nat]"
    by code_simp
  finally have "d = 0 \<or> d = 1 \<or> d = 2 \<or> d = 3 \<or> d = 4 \<or> d = 5 \<or> d = 6 \<or> d = 7 \<or>
      d = 8 \<or> d = 9 \<or> d = 10 \<or> d = 11 \<or> d = 12 \<or> d = 13 \<or> d = 14 \<or> d = 15"
    by simp
  then show ?thesis
    by (elim disjE) (simp_all add: digit_value_def digit_char_def)
qed

lemma radix_le_16: "radix b \<le> 16"
  by (cases b) simp_all



lemma read_from_digit:
  "d < radix b \<Longrightarrow> read_from b acc [digit_char upper d] = Some (acc * radix b + d)"
  using radix_le_16 [of b] by (simp add: digit_value_digit_char)












section \<open>The text of the statistics\<close>





section \<open>Statistics on a stream\<close>

text \<open>Some numbers as a fresh stream and streams with other flags write them.\<close>

lemma num_text_examples:
  "num_text (flags fresh_ostream) 7 = ''7'' \<and>
   num_text (flags fresh_ostream) 37 = ''37'' \<and>
   num_text (flags fresh_ostream) (- 12) = ''-12'' \<and>
   num_text ((flags fresh_ostream)\<lparr>base := Hex\<rparr>) 37 = ''25'' \<and>
   num_text ((flags fresh_ostream)\<lparr>base := Hex, showbase := True, uppercase := True\<rparr>) 31 = ''0X1F'' \<and>
   num_text ((flags fresh_ostream)\<lparr>base := Oct, showbase := True\<rparr>) 8 = ''010'' \<and>
   num_text ((flags fresh_ostream)\<lparr>showpos := True\<rparr>) 0 = ''+0''"
  by (simp add: num_text_def num_parts_def fresh_ostream_def digits.simps digit_char_def)

lemma num_text_hex_negative:
  "num_text ((flags fresh_ostream)\<lparr>base := Hex\<rparr>) (- 1) = ''ffffffff''"
proof -
  have u: "unat (- 1 :: 32 word) = 4294967295"
    by (simp add: unsigned_minus_1_eq_mask mask_eq_exp_minus_1)
  have d: "digits Hex False 4294967295 = ''ffffffff''"
    by (simp add: digits.simps digit_char_def)
  show ?thesis by (simp add: num_text_def num_parts_def fresh_ostream_def u d)
qed

lemmas stream_eqs = statistics_def put_string_def put_int_def endl_def put_char_def flush_def
  write_chars_def sputn_def sentry_not_ok_def setstate_badbit_def setstate_failbit_def
  masked_def good_def pad_text_def pad_num_def num_parts_def fresh_ostream_def
  digits.simps digit_char_def Let_def




text \<open>
  The same counters on other sinks: under \<^verbatim>\<open>std::hex\<close> with a width of 20 and the fill
  \<^verbatim>\<open>.\<close>; on a sink with room for 20 characters only; and on that sink when it throws
  on \<^verbatim>\<open>badbit\<close>.
\<close>

lemma replicate_3: "replicate 3 x = [x, x, x]"
  by (simp add: numeral_3_eq_3)

lemma statistics_hex_example:
  "buffer (stream_of (fst (statistics
     (fresh_ostream\<lparr>flags := (flags fresh_ostream)\<lparr>base := Hex\<rparr>, width := 20, fill := CHR ''.''\<rparr>)
     ((Cache 4 :: (string, nat) cache)
        \<lparr>stats := \<lparr>found_hits = 37, found = 31, removed = 2, miss = 0\<rparr>\<rparr>)))) =
   ''...cache found hits:25'' @ [CHR 0x0A] @
   ''cache found     :1f'' @ [CHR 0x0A] @
   ''cache removed   :2'' @ [CHR 0x0A] @
   ''cache missed    :6'' @ [CHR 0x0A]"
  by (simp add: stream_eqs Cache_def replicate_3)

lemma statistics_short_room_example:
  "fst (statistics (fresh_ostream\<lparr>room := Some 20\<rparr>)
     ((Cache 4 :: (string, nat) cache)
        \<lparr>stats := \<lparr>found_hits = 37, found = 31, removed = 2, miss = 0\<rparr>\<rparr>)) =
   Returns (fresh_ostream
     \<lparr>buffer := ''cache found hits:37'' @ [CHR 0x0A], room := Some 0,
      rdstate := \<lparr>badbit = True, failbit = True, eofbit = False\<rparr>\<rparr>)"
  by (simp add: stream_eqs Cache_def)

lemma statistics_throws_example:
  "fst (statistics
     (fresh_ostream\<lparr>room := Some 20,
        exceptions := \<lparr>badbit = True, failbit = False, eofbit = False\<rparr>\<rparr>)
     ((Cache 4 :: (string, nat) cache)
        \<lparr>stats := \<lparr>found_hits = 37, found = 31, removed = 2, miss = 0\<rparr>\<rparr>)) =
   Throws (fresh_ostream
     \<lparr>buffer := ''cache found hits:37'' @ [CHR 0x0A], room := Some 0,
      rdstate := \<lparr>badbit = True, failbit = False, eofbit = False\<rparr>,
      exceptions := \<lparr>badbit = True, failbit = False, eofbit = False\<rparr>\<rparr>)"
  by (simp add: stream_eqs Cache_def)

section \<open>The scenario of the test program\<close>

text \<open>
  C8. In a cache of capacity 4, the four \<^verbatim>\<open>insert\<close> calls of \<^verbatim>\<open>pi\<close>, \<^verbatim>\<open>e\<close>, \<^verbatim>\<open>gold\<close> and
  \<^verbatim>\<open>sq2\<close> give 4 entries and evict nothing; \<^verbatim>\<open>insert\<close> of \<^verbatim>\<open>zero\<close> evicts \<^verbatim>\<open>pi\<close> and nothing
  else; \<^verbatim>\<open>find\<close> of \<^verbatim>\<open>e\<close> then returns the value inserted with \<^verbatim>\<open>e\<close> and moves \<^verbatim>\<open>e\<close> to the
  front; \<^verbatim>\<open>insert\<close> of \<^verbatim>\<open>one\<close> then evicts \<^verbatim>\<open>gold\<close> and nothing else. The values are
  only stored and returned, so the statement holds for any six values \<open>v_pi\<close>, \<open>v_e\<close>,
  \<open>v_gold\<close>, \<open>v_sq2\<close>, \<open>v_zero\<close>, \<open>v_one\<close> of any type; the test program uses
  the \<^verbatim>\<open>double\<close> values 3.14, 2.17, 1.61, 1.14, 0 and 1.
\<close>

theorem test_scenario:
  "length (lru_list (run [Insert ''pi'' v_pi, Insert ''e'' v_e, Insert ''gold'' v_gold,
      Insert ''sq2'' v_sq2] (Cache 4))) = 4 \<and>
   removed (stats (run [Insert ''pi'' v_pi, Insert ''e'' v_e, Insert ''gold'' v_gold,
      Insert ''sq2'' v_sq2] (Cache 4))) = 0 \<and>
   keys (run [Insert ''pi'' v_pi, Insert ''e'' v_e, Insert ''gold'' v_gold,
      Insert ''sq2'' v_sq2] (Cache 4)) = [''sq2'', ''gold'', ''e'', ''pi''] \<and>
   dom (table (run [Insert ''pi'' v_pi, Insert ''e'' v_e, Insert ''gold'' v_gold,
      Insert ''sq2'' v_sq2] (Cache 4))) = {''pi'', ''e'', ''gold'', ''sq2''} \<and>
   keys (run [Insert ''pi'' v_pi, Insert ''e'' v_e, Insert ''gold'' v_gold,
      Insert ''sq2'' v_sq2, Insert ''zero'' v_zero] (Cache 4)) = [''zero'', ''sq2'', ''gold'', ''e''] \<and>
   dom (table (run [Insert ''pi'' v_pi, Insert ''e'' v_e, Insert ''gold'' v_gold,
      Insert ''sq2'' v_sq2, Insert ''zero'' v_zero] (Cache 4))) = {''e'', ''gold'', ''sq2'', ''zero''} \<and>
   removed (stats (run [Insert ''pi'' v_pi, Insert ''e'' v_e, Insert ''gold'' v_gold,
      Insert ''sq2'' v_sq2, Insert ''zero'' v_zero] (Cache 4))) = 1 \<and>
   fst (find_cache ''e'' (run [Insert ''pi'' v_pi, Insert ''e'' v_e, Insert ''gold'' v_gold,
      Insert ''sq2'' v_sq2, Insert ''zero'' v_zero] (Cache 4))) = Some v_e \<and>
   keys (run [Insert ''pi'' v_pi, Insert ''e'' v_e, Insert ''gold'' v_gold,
      Insert ''sq2'' v_sq2, Insert ''zero'' v_zero, Find ''e''] (Cache 4))
     = [''e'', ''zero'', ''sq2'', ''gold''] \<and>
   keys (run [Insert ''pi'' v_pi, Insert ''e'' v_e, Insert ''gold'' v_gold,
      Insert ''sq2'' v_sq2, Insert ''zero'' v_zero, Find ''e'', Insert ''one'' v_one] (Cache 4))
     = [''one'', ''e'', ''zero'', ''sq2''] \<and>
   dom (table (run [Insert ''pi'' v_pi, Insert ''e'' v_e, Insert ''gold'' v_gold,
      Insert ''sq2'' v_sq2, Insert ''zero'' v_zero, Find ''e'', Insert ''one'' v_one] (Cache 4)))
     = {''e'', ''sq2'', ''zero'', ''one''} \<and>
   removed (stats (run [Insert ''pi'' v_pi, Insert ''e'' v_e, Insert ''gold'' v_gold,
      Insert ''sq2'' v_sq2, Insert ''zero'' v_zero, Find ''e'', Insert ''one'' v_one] (Cache 4))) = 2"
proof -
  let ?c0 = "Cache 4 :: (string, 'a) cache"
  let ?i4 = "[Insert ''pi'' v_pi, Insert ''e'' v_e, Insert ''gold'' v_gold, Insert ''sq2'' v_sq2]"
  let ?i5 = "?i4 @ [Insert ''zero'' v_zero]"
  let ?i6 = "?i5 @ [Find ''e'']"
  let ?i7 = "?i6 @ [Insert ''one'' v_one]"
  have a1: "length (lru_list (run ?i4 ?c0)) = 4" by (simp add: run_eqs)
  have a2: "removed (stats (run ?i4 ?c0)) = 0" by (simp add: run_eqs)
  have a3: "keys (run ?i4 ?c0) = [''sq2'', ''gold'', ''e'', ''pi'']" by (simp add: run_eqs)
  have a4: "dom (table (run ?i4 ?c0)) = {''pi'', ''e'', ''gold'', ''sq2''}"
    by (auto simp: run_eqs split: if_splits)
  have b1: "keys (run ?i5 ?c0) = [''zero'', ''sq2'', ''gold'', ''e'']" by (simp add: run_eqs)
  have b2: "dom (table (run ?i5 ?c0)) = {''e'', ''gold'', ''sq2'', ''zero''}"
    by (auto simp: run_eqs split: if_splits)
  have b3: "removed (stats (run ?i5 ?c0)) = 1" by (simp add: run_eqs)
  have c1: "fst (find_cache ''e'' (run ?i5 ?c0)) = Some v_e" by (simp add: run_eqs)
  have c2: "keys (run ?i6 ?c0) = [''e'', ''zero'', ''sq2'', ''gold'']" by (simp add: run_eqs)
  have d1: "keys (run ?i7 ?c0) = [''one'', ''e'', ''zero'', ''sq2'']" by (simp add: run_eqs)
  have d2: "dom (table (run ?i7 ?c0)) = {''e'', ''sq2'', ''zero'', ''one''}"
    by (auto simp: run_eqs split: if_splits)
  have d3: "removed (stats (run ?i7 ?c0)) = 2" by (simp add: run_eqs)
  from a1 a2 a3 a4 b1 b2 b3 c1 c2 d1 d2 d3 show ?thesis
    by (simp only: append.simps)
qed

end
